theory Spec2Isabelle
  imports Complex_Main "HOL-Library.AList" "HOL-Library.Option_ord" "HOL-Library.Stream"
begin

section \<open>asgmt1: the finger game\<close>

subsection \<open>Fingers and the fixed tables of \<open>FingerGame.__init__\<close>\<close>

text \<open>
  \<^verbatim>\<open>Finger = str\<close>. A Python string is modelled by the list of its UTF-8 bytes; the
  encoding is injective, so string equality (the only operation the game applies to
  fingers) is preserved. The five literals of the source are named by their pinyin.
\<close>

type_synonym Finger = string

datatype error = AssertionError | KeyError | IndexError | EOFError

definition muzhi :: Finger where
  "muzhi = [CHR 0xE6, CHR 0x8B, CHR 0x87, CHR 0xE6, CHR 0x8C, CHR 0x87]"

definition shizhi :: Finger where
  "shizhi = [CHR 0xE9, CHR 0xA3, CHR 0x9F, CHR 0xE6, CHR 0x8C, CHR 0x87]"

definition zhongzhi :: Finger where
  "zhongzhi = [CHR 0xE4, CHR 0xB8, CHR 0xAD, CHR 0xE6, CHR 0x8C, CHR 0x87]"

definition wumingzhi :: Finger where
  "wumingzhi = [CHR 0xE6, CHR 0x97, CHR 0xA0, CHR 0xE5, CHR 0x90, CHR 0x8D, CHR 0xE6, CHR 0x8C, CHR 0x87]"

definition xiaozhi :: Finger where
  "xiaozhi = [CHR 0xE5, CHR 0xB0, CHR 0x8F, CHR 0xE6, CHR 0x8C, CHR 0x87]"

definition exit_str :: string where
  "exit_str = ''exit''"

definition available_fingers :: "Finger list" where
  "available_fingers = [muzhi, shizhi, zhongzhi, wumingzhi, xiaozhi]"

definition win_lose_pairs :: "(Finger \<times> Finger) list" where
  "win_lose_pairs =
     [(muzhi, shizhi),
      (shizhi, zhongzhi),
      (zhongzhi, wumingzhi),
      (wumingzhi, xiaozhi),
      (xiaozhi, muzhi)]"

subsection \<open>\<open>FingerGame.__get_winning_finger\<close>\<close>

text \<open>
  The \<^verbatim>\<open>for win, lose in self.win_lose_pairs\<close> loop returns the winner of the first pair
  whose loser is the predicted finger; falling out of the loop reaches
  \<^verbatim>\<open>assert False\<close>.
\<close>

fun winning_finger_loop :: "(Finger \<times> Finger) list \<Rightarrow> Finger \<Rightarrow> error + Finger" where
  "winning_finger_loop [] predicted_finger = Inl AssertionError"
| "winning_finger_loop ((win, lose) # pairs) predicted_finger =
     (if lose = predicted_finger then Inr win
      else winning_finger_loop pairs predicted_finger)"

definition get_winning_finger :: "Finger \<Rightarrow> error + Finger" where
  "get_winning_finger predicted_finger = winning_finger_loop win_lose_pairs predicted_finger"

subsection \<open>\<open>FingerGame.Statistics\<close>\<close>

text \<open>
  The dictionary \<^verbatim>\<open>user_finger_after_winning\<close> is an association list in insertion
  order, because \<^verbatim>\<open>sorted\<close> later iterates it and breaks ties by that order. Python's
  integers are unbounded, hence \<open>int\<close>; \<^verbatim>\<open>last_user_finger = None\<close> is \<open>None\<close>.
\<close>

record Statistics =
  total_turn :: int
  win_turn :: int
  lose_turn :: int
  draw_turn :: int
  user_finger_after_winning :: "(Finger \<times> int) list"
  last_user_finger :: "Finger option"
  last_user_win :: bool

text \<open>\<^verbatim>\<open>{finger: 0 for finger in available_fingers}\<close>: one assignment per element, in order.\<close>

definition Statistics_init :: "Finger list \<Rightarrow> Statistics" where
  "Statistics_init fingers =
     \<lparr> total_turn = 0, win_turn = 0, lose_turn = 0, draw_turn = 0,
       user_finger_after_winning = fold (\<lambda>finger d. AList.update finger 0 d) fingers [],
       last_user_finger = None,
       last_user_win = False \<rparr>"

text \<open>
  \<^verbatim>\<open>update_stats\<close> mutates the object field by field; the model threads the record
  through the same statements in the same order. An exception (\<^verbatim>\<open>assert False\<close>, or the
  \<^verbatim>\<open>KeyError\<close> of \<^verbatim>\<open>d[k] += 1\<close> on a missing key) is not caught anywhere in the program,
  so it ends the run and is returned as \<open>Inl\<close>.
\<close>

definition update_stats :: "Statistics \<Rightarrow> Finger \<Rightarrow> bool \<Rightarrow> bool \<Rightarrow> bool \<Rightarrow> error + Statistics" where
  "update_stats self user_finger win draw lose =
     (let s1 = self\<lparr>total_turn := total_turn self + 1\<rparr>;
          r2 = (if draw then Inr (s1\<lparr>draw_turn := draw_turn s1 + 1\<rparr>)
                else if win then Inr (s1\<lparr>win_turn := win_turn s1 + 1\<rparr>)
                else if lose then Inr (s1\<lparr>lose_turn := lose_turn s1 + 1\<rparr>)
                else Inl AssertionError)
      in case r2 of
           Inl e \<Rightarrow> Inl e
         | Inr s2 \<Rightarrow>
             (let r3 = (if last_user_win s2 then
                          (case map_of (user_finger_after_winning s2) user_finger of
                             None \<Rightarrow> Inl KeyError
                           | Some v \<Rightarrow>
                               Inr (s2\<lparr>user_finger_after_winning :=
                                     AList.update user_finger (v + 1) (user_finger_after_winning s2)\<rparr>))
                        else Inr s2)
              in case r3 of
                   Inl e \<Rightarrow> Inl e
                 | Inr s3 \<Rightarrow> Inr (s3\<lparr>last_user_finger := Some user_finger, last_user_win := win\<rparr>)))"

subsection \<open>\<open>FingerGame.__judge\<close>\<close>

text \<open>
  The three branches print \<^verbatim>\<open>win_output\<close>, \<^verbatim>\<open>lose_output\<close> or \<^verbatim>\<open>draw_output\<close> and call
  \<^verbatim>\<open>update_stats\<close> with the matching flag. The printed verdict is the first component
  of the result, the updated statistics the second.
\<close>

datatype outcome = Win | Lose | Draw

definition judge :: "Statistics \<Rightarrow> Finger \<Rightarrow> Finger \<Rightarrow> outcome \<times> (error + Statistics)" where
  "judge stats user_choice computer_choice =
     (if (user_choice, computer_choice) \<in> set win_lose_pairs then
        (Win, update_stats stats user_choice True False False)
      else if (computer_choice, user_choice) \<in> set win_lose_pairs then
        (Lose, update_stats stats user_choice False False True)
      else
        (Draw, update_stats stats user_choice False True False))"

subsection \<open>\<open>FingerGame.__get_computer_choice\<close>\<close>

text \<open>
  The module \<^verbatim>\<open>random\<close> is not part of the repository. Each call of
  \<^verbatim>\<open>__get_computer_choice\<close> consumes one \<^verbatim>\<open>random.random()\<close> and then one
  \<^verbatim>\<open>random.choice\<close>; the model takes what the library drew as a pair \<open>(r, i)\<close>: the
  number \<open>r\<close> returned by \<^verbatim>\<open>random.random()\<close> (the library promises \<open>0 \<le> r < 1\<close>) and the
  index \<open>i\<close> at which \<^verbatim>\<open>random.choice(seq)\<close> reads \<^verbatim>\<open>seq\<close> (the library draws it below
  \<^verbatim>\<open>len(seq)\<close>, and raises \<^verbatim>\<open>IndexError\<close> on an empty sequence).

  The comparisons \<^verbatim>\<open>< 0.8\<close> and \<^verbatim>\<open>< 0.75\<close> are on exact reals: for every double \<open>x\<close>,
  \<open>x\<close> is below the double nearest to 0.8 (which lies above 0.8) exactly when \<open>x < 0.8\<close>,
  and 0.75 is a double itself.
\<close>

definition random_choice :: "'a list \<Rightarrow> nat \<Rightarrow> error + 'a" where
  "random_choice seq i = (if i < length seq then Inr (seq ! i) else Inl IndexError)"

text \<open>
  \<^verbatim>\<open>sorted(xs, key=key, reverse=True)\<close>: Python reverses the list, sorts it stably in
  ascending order of the key and reverses the result, so that equal keys keep their
  original order. \<open>sort_key\<close> is a stable insertion sort.
\<close>

definition sorted_reverse :: "('a \<Rightarrow> 'k::linorder) \<Rightarrow> 'a list \<Rightarrow> 'a list" where
  "sorted_reverse key xs = rev (sort_key key (rev xs))"

text \<open>
  Iterating a dictionary yields its keys in insertion order (\<open>map fst\<close>), and
  \<^verbatim>\<open>dict.get\<close> is \<open>map_of\<close>, with \<^verbatim>\<open>None\<close> for a missing key; the keys sorted here all come
  from the dictionary itself. The two local lists of \<^verbatim>\<open>__get_computer_choice\<close> are
  functions of the statistics.
\<close>

definition predicted_fingers :: "Statistics \<Rightarrow> Finger list" where
  "predicted_fingers stats =
     take 2 (sorted_reverse (map_of (user_finger_after_winning stats))
               (map fst (user_finger_after_winning stats)))"

definition remaining_fingers :: "Statistics \<Rightarrow> Finger list" where
  "remaining_fingers stats =
     filter (\<lambda>finger. Some finger \<noteq> last_user_finger stats) available_fingers"

definition get_computer_choice :: "Statistics \<Rightarrow> real \<times> nat \<Rightarrow> error + Finger" where
  "get_computer_choice stats draw =
     (let (r, i) = draw in
      if last_user_win stats then
        (if r < 0.8 then
           (case random_choice (predicted_fingers stats) i of
              Inl e \<Rightarrow> Inl e
            | Inr predicted_finger \<Rightarrow> get_winning_finger predicted_finger)
         else random_choice available_fingers i)
      else
        (if r < 0.75 then
           (case random_choice (remaining_fingers stats) i of
              Inl e \<Rightarrow> Inl e
            | Inr predicted_finger \<Rightarrow> get_winning_finger predicted_finger)
         else random_choice available_fingers i))"

subsection \<open>\<open>FingerGame.__get_input\<close> and \<open>FingerGame.start\<close>\<close>

text \<open>
  Standard input is the list of the lines still to be read; \<^verbatim>\<open>input()\<close> takes the first
  one and raises \<^verbatim>\<open>EOFError\<close> when there is none. The prompts printed on the way are
  left out. \<^verbatim>\<open>__get_input\<close> returns the first line that is the exit token or a finger,
  with the lines after it.
\<close>

fun get_input :: "string list \<Rightarrow> error + (string \<times> string list)" where
  "get_input [] = Inl EOFError"
| "get_input (user_input # rest) =
     (if user_input = exit_str \<or> user_input \<in> set available_fingers
      then Inr (user_input, rest)
      else get_input rest)"

lemma get_input_shorter:
  "get_input stdin = Inr (user_input, rest) \<Longrightarrow> length rest < length stdin"
  by (induction stdin) (auto split: if_splits)

text \<open>
  The game loop. The session state is the statistics, the unread input and the
  library's future draws, one pair per round. \<^verbatim>\<open>start\<close> returns at the exit token; the
  model then returns the session state as it is at that moment. Python evaluates the
  argument \<^verbatim>\<open>self.__get_computer_choice()\<close> before it calls \<^verbatim>\<open>__judge\<close>.
\<close>

function start :: "Statistics \<Rightarrow> string list \<Rightarrow> (real \<times> nat) stream
    \<Rightarrow> error + (Statistics \<times> string list \<times> (real \<times> nat) stream)" where
  "start stats stdin rng =
     (case get_input stdin of
        Inl e \<Rightarrow> Inl e
      | Inr (user_input, rest) \<Rightarrow>
          if user_input = exit_str then Inr (stats, rest, rng)
          else
            (case get_computer_choice stats (shd rng) of
               Inl e \<Rightarrow> Inl e
             | Inr computer_choice \<Rightarrow>
                 (case snd (judge stats user_input computer_choice) of
                    Inl e \<Rightarrow> Inl e
                  | Inr stats' \<Rightarrow> start stats' rest (stl rng))))"
  by pat_completeness auto
termination
  by (relation "measure (\<lambda>(stats, stdin, rng). length stdin)")
     (auto dest: get_input_shorter)

text \<open>
  A sequence of \<^verbatim>\<open>update_stats\<close> calls on one \<^verbatim>\<open>Statistics\<close> object, each given as
  \<open>(user_finger, win, draw, lose)\<close>; the first exception ends the run.
\<close>

fun update_stats_calls :: "Statistics \<Rightarrow> (Finger \<times> bool \<times> bool \<times> bool) list \<Rightarrow> error + Statistics" where
  "update_stats_calls stats [] = Inr stats"
| "update_stats_calls stats ((user_finger, win, draw, lose) # calls) =
     (case update_stats stats user_finger win draw lose of
        Inl e \<Rightarrow> Inl e
      | Inr stats' \<Rightarrow> update_stats_calls stats' calls)"

definition exactly_one :: "Finger \<times> bool \<times> bool \<times> bool \<Rightarrow> bool" where
  "exactly_one call =
     (let (user_finger, win, draw, lose) = call in
      (win \<and> \<not> draw \<and> \<not> lose) \<or> (draw \<and> \<not> win \<and> \<not> lose) \<or> (lose \<and> \<not> win \<and> \<not> draw))"

section \<open>asgmt2: word counts\<close>

text \<open>
  \<^verbatim>\<open>str.split()\<close> without arguments cuts the text at runs of whitespace and returns the
  non-empty pieces. Which characters are whitespace is a table of the Unicode database
  (\<^verbatim>\<open>str.isspace\<close>), not part of the repository: it is the parameter \<open>isspace\<close>, and the
  type \<open>'c\<close> stands for Python's characters. \<open>cur\<close> is the piece being read.
\<close>

fun split_loop :: "('c \<Rightarrow> bool) \<Rightarrow> 'c list \<Rightarrow> 'c list \<Rightarrow> 'c list list" where
  "split_loop isspace cur [] = (if cur = [] then [] else [cur])"
| "split_loop isspace cur (ch # text) =
     (if isspace ch then
        (if cur = [] then split_loop isspace [] text
         else cur # split_loop isspace [] text)
      else split_loop isspace (cur @ [ch]) text)"

definition str_split :: "('c \<Rightarrow> bool) \<Rightarrow> 'c list \<Rightarrow> 'c list list" where
  "str_split isspace text = split_loop isspace [] text"

text \<open>
  The result dictionaries of this module are only read as mappings (the iteration
  order of \<^verbatim>\<open>set(dict1) | set(dict2)\<close> is not even determined), so they are maps.
  \<^verbatim>\<open>{word: words.count(word) for word in words}\<close> assigns once per element of \<^verbatim>\<open>words\<close>,
  in order.
\<close>

definition count_word_occurrences :: "('c \<Rightarrow> bool) \<Rightarrow> 'c list \<Rightarrow> ('c list \<rightharpoonup> int)" where
  "count_word_occurrences isspace text =
     (let words = str_split isspace text
      in fold (\<lambda>word d. d(word \<mapsto> int (count_list words word))) words Map.empty)"

text \<open>\<^verbatim>\<open>d.get(key, 0)\<close>\<close>

definition dict_get :: "('k \<rightharpoonup> int) \<Rightarrow> 'k \<Rightarrow> int \<Rightarrow> int" where
  "dict_get d key dflt = (case d key of None \<Rightarrow> dflt | Some v \<Rightarrow> v)"

definition merge_word_counts :: "('k \<rightharpoonup> int) \<Rightarrow> ('k \<rightharpoonup> int) \<Rightarrow> ('k \<rightharpoonup> int)" where
  "merge_word_counts dict1 dict2 =
     (\<lambda>key. if key \<in> dom dict1 \<union> dom dict2
            then Some (dict_get dict1 key 0 + dict_get dict2 key 0)
            else None)"

section \<open>Notions used to state the properties\<close>

text \<open>
  \<open>earlier_in xs a b\<close>: \<open>b\<close> occurs in \<open>xs\<close> after the first occurrence of \<open>a\<close>. On the
  list of fingers, which has no repetition, it says that \<open>a\<close> comes before \<open>b\<close>.
\<close>

definition earlier_in :: "'a list \<Rightarrow> 'a \<Rightarrow> 'a \<Rightarrow> bool" where
  "earlier_in xs a b \<longleftrightarrow> b \<in> set (drop 1 (dropWhile (\<lambda>x. x \<noteq> a) xs))"

text \<open>
  The whitespace-separated tokens of a text, stated on the text alone: \<open>ws\<close> are the
  tokens of \<open>text\<close> when \<open>text\<close> is a run of whitespace (possibly empty), then the first
  token, not empty and free of whitespace, then a rest that is empty or starts with
  whitespace and whose tokens are the other ones; a text of whitespace only has no token.
\<close>

inductive separated_tokens :: "('c \<Rightarrow> bool) \<Rightarrow> 'c list \<Rightarrow> 'c list list \<Rightarrow> bool"
  for isspace :: "'c \<Rightarrow> bool" where
  no_token: "\<forall>c \<in> set sp. isspace c \<Longrightarrow> separated_tokens isspace sp []"
| token: "\<forall>c \<in> set sp. isspace c \<Longrightarrow> w \<noteq> [] \<Longrightarrow> \<forall>c \<in> set w. \<not> isspace c \<Longrightarrow>
          rest = [] \<or> isspace (hd rest) \<Longrightarrow> separated_tokens isspace rest ws \<Longrightarrow>
          separated_tokens isspace (sp @ w @ rest) (w # ws)"

section \<open>Properties of the finger game\<close>

subsection \<open>The fixed tables\<close>

lemmas finger_defs = muzhi_def shizhi_def zhongzhi_def wumingzhi_def xiaozhi_def

lemma fingers_neq:
  "muzhi \<noteq> shizhi" "muzhi \<noteq> zhongzhi" "muzhi \<noteq> wumingzhi" "muzhi \<noteq> xiaozhi"
  "shizhi \<noteq> muzhi" "shizhi \<noteq> zhongzhi" "shizhi \<noteq> wumingzhi" "shizhi \<noteq> xiaozhi"
  "zhongzhi \<noteq> muzhi" "zhongzhi \<noteq> shizhi" "zhongzhi \<noteq> wumingzhi" "zhongzhi \<noteq> xiaozhi"
  "wumingzhi \<noteq> muzhi" "wumingzhi \<noteq> shizhi" "wumingzhi \<noteq> zhongzhi" "wumingzhi \<noteq> xiaozhi"
  "xiaozhi \<noteq> muzhi" "xiaozhi \<noteq> shizhi" "xiaozhi \<noteq> zhongzhi" "xiaozhi \<noteq> wumingzhi"
  by (simp_all add: finger_defs)

lemma fingers_not_exit:
  "muzhi \<noteq> exit_str" "shizhi \<noteq> exit_str" "zhongzhi \<noteq> exit_str"
  "wumingzhi \<noteq> exit_str" "xiaozhi \<noteq> exit_str"
  by (simp_all add: finger_defs exit_str_def)

lemma distinct_available_fingers: "distinct available_fingers"
  by (simp add: available_fingers_def fingers_neq)

lemma length_available_fingers: "length available_fingers = 5"
  by (simp add: available_fingers_def)

lemma available_fingers_cases:
  assumes "f \<in> set available_fingers"
  obtains "f = muzhi" | "f = shizhi" | "f = zhongzhi" | "f = wumingzhi" | "f = xiaozhi"
  using assms by (auto simp: available_fingers_def)

lemma get_winning_finger_simps:
  "get_winning_finger shizhi = Inr muzhi"
  "get_winning_finger zhongzhi = Inr shizhi"
  "get_winning_finger wumingzhi = Inr zhongzhi"
  "get_winning_finger xiaozhi = Inr wumingzhi"
  "get_winning_finger muzhi = Inr xiaozhi"
  by (simp_all add: get_winning_finger_def win_lose_pairs_def fingers_neq)

lemma winning_finger_loop_sound:
  "winning_finger_loop pairs p = Inr w \<Longrightarrow> (w, p) \<in> set pairs"
  by (induction pairs p rule: winning_finger_loop.induct) (auto split: if_splits)

lemma winning_finger_loop_fails_iff:
  "winning_finger_loop pairs p = Inl e \<longleftrightarrow> e = AssertionError \<and> p \<notin> snd ` set pairs"
  by (induction pairs p rule: winning_finger_loop.induct) (auto simp: image_iff)

text \<open>
  C2. For each of the five fingers the lookup of the finger that beats it returns a
  finger, and that finger beats the argument in the fixed relation; the
  \<^verbatim>\<open>assert False\<close> after the loop is not reached.
\<close>

theorem C2_get_winning_finger_succeeds:
  assumes "f \<in> set available_fingers"
  shows "(\<exists>w. get_winning_finger f = Inr w \<and> (w, f) \<in> set win_lose_pairs
            \<and> w \<in> set available_fingers)
         \<and> get_winning_finger f \<noteq> Inl AssertionError"
  using assms
  by (elim available_fingers_cases)
     (simp_all add: get_winning_finger_simps win_lose_pairs_def available_fingers_def)

theorem C2_get_winning_finger_succeeds_witness:
  "zhongzhi \<in> set available_fingers
   \<and> get_winning_finger zhongzhi = Inr shizhi
   \<and> get_winning_finger zhongzhi \<noteq> Inl AssertionError"
  using C2_get_winning_finger_succeeds [of zhongzhi]
  by (simp add: available_fingers_def get_winning_finger_simps)

text \<open>
  C4. The beats-relation is a directed 5-cycle on the five fingers: the winners, in
  table order, are the five distinct fingers and the losers are the same list rotated
  by one; hence every finger is the loser of exactly one pair and the winner of
  exactly one pair, and the finger at the other end of the pair is a different one.
\<close>

theorem C4_beats_relation_is_5_cycle:
  "map fst win_lose_pairs = available_fingers
   \<and> map snd win_lose_pairs = rotate 1 available_fingers
   \<and> distinct available_fingers \<and> length available_fingers = 5
   \<and> (\<forall>f \<in> set available_fingers.
        length (filter (\<lambda>(win, lose). lose = f) win_lose_pairs) = 1
      \<and> length (filter (\<lambda>(win, lose). win = f) win_lose_pairs) = 1
      \<and> (\<exists>!g. (g, f) \<in> set win_lose_pairs)
      \<and> (\<exists>!g. (f, g) \<in> set win_lose_pairs)
      \<and> (f, f) \<notin> set win_lose_pairs)"
proof -
  have tables: "map fst win_lose_pairs = available_fingers"
    "map snd win_lose_pairs = rotate 1 available_fingers"
    by (simp_all add: win_lose_pairs_def available_fingers_def)
  have each: "length (filter (\<lambda>(win, lose). lose = f) win_lose_pairs) = 1
      \<and> length (filter (\<lambda>(win, lose). win = f) win_lose_pairs) = 1
      \<and> (\<exists>!g. (g, f) \<in> set win_lose_pairs)
      \<and> (\<exists>!g. (f, g) \<in> set win_lose_pairs)
      \<and> (f, f) \<notin> set win_lose_pairs"
    if "f \<in> set available_fingers" for f
    using that
    by (elim available_fingers_cases) (auto simp: win_lose_pairs_def fingers_neq)
  show ?thesis
    using tables each distinct_available_fingers length_available_fingers by blast
qed

theorem C4_beats_relation_is_5_cycle_witness:
  "xiaozhi \<in> set available_fingers
   \<and> length (filter (\<lambda>(win, lose). lose = xiaozhi) win_lose_pairs) = 1
   \<and> length (filter (\<lambda>(win, lose). win = xiaozhi) win_lose_pairs) = 1
   \<and> (wumingzhi, xiaozhi) \<in> set win_lose_pairs
   \<and> (xiaozhi, muzhi) \<in> set win_lose_pairs"
proof -
  have mem: "xiaozhi \<in> set available_fingers"
    by (simp add: available_fingers_def)
  have "length (filter (\<lambda>(win, lose). lose = xiaozhi) win_lose_pairs) = 1
      \<and> length (filter (\<lambda>(win, lose). win = xiaozhi) win_lose_pairs) = 1"
    using C4_beats_relation_is_5_cycle mem by blast
  then show ?thesis
    using mem by (simp add: win_lose_pairs_def)
qed

subsection \<open>The outcome judge\<close>

lemma win_lose_pairs_asym: "(u, c) \<in> set win_lose_pairs \<Longrightarrow> (c, u) \<notin> set win_lose_pairs"
  unfolding win_lose_pairs_def using fingers_neq by fastforce

lemma win_lose_pairs_irrefl: "(u, u) \<notin> set win_lose_pairs"
  unfolding win_lose_pairs_def using fingers_neq by fastforce

lemma judge_calls_update_stats:
  "snd (judge s u c) =
     update_stats s u (fst (judge s u c) = Win) (fst (judge s u c) = Draw) (fst (judge s u c) = Lose)
   \<and> exactly_one (u, fst (judge s u c) = Win, fst (judge s u c) = Draw, fst (judge s u c) = Lose)"
  by (simp add: judge_def exactly_one_def)

text \<open>
  C1, as the code has it. The verdict is a win exactly when the user's finger beats the
  computer's, a loss exactly when the computer's finger beats the user's, and a draw
  exactly when neither finger beats the other. Equal fingers are a draw; the converse
  does not hold, see the counterexample below.
\<close>

theorem C1_judge_classification:
  "(fst (judge s u c) = Win \<longleftrightarrow> (u, c) \<in> set win_lose_pairs)
   \<and> (fst (judge s u c) = Lose \<longleftrightarrow> (c, u) \<in> set win_lose_pairs)
   \<and> (fst (judge s u c) = Draw \<longleftrightarrow> (u, c) \<notin> set win_lose_pairs \<and> (c, u) \<notin> set win_lose_pairs)
   \<and> (u = c \<longrightarrow> fst (judge s u c) = Draw)"
  using win_lose_pairs_asym [of u c] win_lose_pairs_irrefl [of u]
  by (auto simp: judge_def)

theorem C1_judge_classification_witness:
  "fst (judge (Statistics_init available_fingers) muzhi shizhi) = Win
   \<and> fst (judge (Statistics_init available_fingers) shizhi muzhi) = Lose
   \<and> fst (judge (Statistics_init available_fingers) xiaozhi xiaozhi) = Draw"
  using C1_judge_classification [of "Statistics_init available_fingers" muzhi shizhi]
        C1_judge_classification [of "Statistics_init available_fingers" shizhi muzhi]
        C1_judge_classification [of "Statistics_init available_fingers" xiaozhi xiaozhi]
  by (simp add: win_lose_pairs_def)

text \<open>
  The thumb against the middle finger: two of the five fingers, different, and neither
  beats the other, so the judge declares a draw. A draw does not imply equal fingers.
\<close>

theorem C1_draw_with_different_fingers:
  "muzhi \<in> set available_fingers \<and> zhongzhi \<in> set available_fingers
   \<and> fst (judge (Statistics_init available_fingers) muzhi zhongzhi) = Draw
   \<and> muzhi \<noteq> zhongzhi"
  by (simp add: judge_def win_lose_pairs_def available_fingers_def fingers_neq)

subsection \<open>The statistics tracker\<close>

lemma update_stats_Inr:
  assumes "update_stats s f w d l = Inr s'"
  shows "total_turn s' = total_turn s + 1"
    and "draw_turn s' = draw_turn s + (if d then 1 else 0)"
    and "win_turn s' = win_turn s + (if \<not> d \<and> w then 1 else 0)"
    and "lose_turn s' = lose_turn s + (if \<not> d \<and> \<not> w \<and> l then 1 else 0)"
    and "last_user_win s' = w"
    and "last_user_finger s' = Some f"
    and "d \<or> w \<or> l"
    and "\<not> last_user_win s \<Longrightarrow> user_finger_after_winning s' = user_finger_after_winning s"
    and "last_user_win s \<Longrightarrow> \<exists>v. map_of (user_finger_after_winning s) f = Some v
           \<and> user_finger_after_winning s' = AList.update f (v + 1) (user_finger_after_winning s)"
  using assms
  by (auto simp: update_stats_def Let_def split: if_splits option.splits)

lemma update_stats_Inl:
  "update_stats s f w d l = Inl e \<longleftrightarrow>
     (\<not> d \<and> \<not> w \<and> \<not> l \<and> e = AssertionError)
     \<or> ((d \<or> w \<or> l) \<and> last_user_win s \<and> map_of (user_finger_after_winning s) f = None \<and> e = KeyError)"
  by (auto simp: update_stats_def Let_def split: if_splits option.splits)

lemma keys_update_present:
  "map_of al k = Some v \<Longrightarrow> map fst (AList.update k v' al) = map fst al"
  by (induction al) (auto split: if_splits)

lemma sum_update_present:
  "map_of al k = Some v \<Longrightarrow> sum_list (map snd (AList.update k (v + 1) al)) = sum_list (map snd al) + (1::int)"
  by (induction al) (auto split: if_splits)

lemma update_stats_keys:
  "update_stats s f w d l = Inr s' \<Longrightarrow>
   map fst (user_finger_after_winning s') = map fst (user_finger_after_winning s)"
  using update_stats_Inr(8,9)[of s f w d l s']
  by (cases "last_user_win s") (auto simp: keys_update_present)

lemma update_stats_sum:
  "update_stats s f w d l = Inr s' \<Longrightarrow>
   sum_list (map snd (user_finger_after_winning s')) =
   sum_list (map snd (user_finger_after_winning s)) + (if last_user_win s then 1 else 0)"
  using update_stats_Inr(8,9)[of s f w d l s']
  by (cases "last_user_win s") (auto simp: sum_update_present)

lemma Statistics_init_fields:
  "user_finger_after_winning (Statistics_init available_fingers) =
     [(muzhi, 0), (shizhi, 0), (zhongzhi, 0), (wumingzhi, 0), (xiaozhi, 0)]"
  "total_turn (Statistics_init fs) = 0" "win_turn (Statistics_init fs) = 0"
  "lose_turn (Statistics_init fs) = 0" "draw_turn (Statistics_init fs) = 0"
  "last_user_finger (Statistics_init fs) = None" "last_user_win (Statistics_init fs) = False"
  by (simp_all add: Statistics_init_def available_fingers_def fingers_neq)

lemma Statistics_init_keys:
  "map fst (user_finger_after_winning (Statistics_init available_fingers)) = available_fingers"
  by (simp add: Statistics_init_fields) (simp add: available_fingers_def)

lemma calls_counters:
  assumes "\<forall>call \<in> set calls. exactly_one call"
      and "update_stats_calls s0 calls = Inr s"
      and "total_turn s0 = win_turn s0 + lose_turn s0 + draw_turn s0"
  shows "total_turn s = win_turn s + lose_turn s + draw_turn s
       \<and> total_turn s = total_turn s0 + int (length calls)"
  using assms
proof (induction calls arbitrary: s0)
  case Nil
  then show ?case by simp
next
  case (Cons call calls)
  obtain f w d l where call: "call = (f, w, d, l)" by (cases call) auto
  from Cons.prems(2) call obtain s1 where
    s1: "update_stats s0 f w d l = Inr s1" and rest: "update_stats_calls s1 calls = Inr s"
    by (auto split: sum.splits)
  from Cons.prems(1) call have one: "exactly_one (f, w, d, l)" by simp
  have "total_turn s1 = win_turn s1 + lose_turn s1 + draw_turn s1"
    using update_stats_Inr(1-4)[OF s1] one Cons.prems(3)
    by (auto simp: exactly_one_def)
  moreover have "total_turn s1 = total_turn s0 + 1"
    by (rule update_stats_Inr(1)[OF s1])
  ultimately show ?case
    using Cons.IH[OF _ rest] Cons.prems(1) by auto
qed

lemma calls_keys:
  "update_stats_calls s0 calls = Inr s \<Longrightarrow>
   map fst (user_finger_after_winning s) = map fst (user_finger_after_winning s0)"
proof (induction calls arbitrary: s0)
  case Nil
  then show ?case by simp
next
  case (Cons call calls)
  obtain f w d l where call: "call = (f, w, d, l)" by (cases call) auto
  from Cons.prems call obtain s1 where
    s1: "update_stats s0 f w d l = Inr s1" and rest: "update_stats_calls s1 calls = Inr s"
    by (auto split: sum.splits)
  show ?case
    using Cons.IH[OF rest] update_stats_keys[OF s1] by simp
qed

lemma calls_fail:
  assumes "\<forall>call \<in> set calls. exactly_one call"
      and "update_stats_calls s0 calls = Inl e"
  shows "e = KeyError \<and> (\<exists>call \<in> set calls. fst call \<notin> set (map fst (user_finger_after_winning s0)))"
  using assms
proof (induction calls arbitrary: s0)
  case Nil
  then show ?case by simp
next
  case (Cons call calls)
  obtain f w d l where call: "call = (f, w, d, l)" by (cases call) auto
  from Cons.prems(1) call have one: "exactly_one (f, w, d, l)" by simp
  show ?case
  proof (cases "update_stats s0 f w d l")
    case (Inl e')
    with Cons.prems(2) call have "e' = e" by simp
    with Inl one have "e = KeyError \<and> map_of (user_finger_after_winning s0) f = None"
      by (auto simp: update_stats_Inl exactly_one_def)
    then show ?thesis
      using call by (auto simp: map_of_eq_None_iff)
  next
    case (Inr s1)
    with Cons.prems(2) call have rest: "update_stats_calls s1 calls = Inl e" by simp
    from Cons.IH[OF _ rest] Cons.prems(1) update_stats_keys[OF Inr]
    show ?thesis by auto
  qed
qed

lemma calls_after_winning:
  assumes "\<forall>call \<in> set calls. exactly_one call"
      and "update_stats_calls s0 calls = Inr s"
      and "sum_list (map snd (user_finger_after_winning s0)) + (if last_user_win s0 then 1 else 0) \<le> win_turn s0"
  shows "sum_list (map snd (user_finger_after_winning s)) + (if last_user_win s then 1 else 0) \<le> win_turn s"
  using assms
proof (induction calls arbitrary: s0)
  case Nil
  then show ?case by simp
next
  case (Cons call calls)
  obtain f w d l where call: "call = (f, w, d, l)" by (cases call) auto
  from Cons.prems(2) call obtain s1 where
    s1: "update_stats s0 f w d l = Inr s1" and rest: "update_stats_calls s1 calls = Inr s"
    by (auto split: sum.splits)
  from Cons.prems(1) call have one: "exactly_one (f, w, d, l)" by simp
  have "sum_list (map snd (user_finger_after_winning s1)) + (if last_user_win s1 then 1 else 0) \<le> win_turn s1"
    using update_stats_sum[OF s1] update_stats_Inr(3,5)[OF s1] one Cons.prems(3)
    by (auto simp: exactly_one_def split: if_splits)
  then show ?case
    using Cons.IH[OF _ rest] Cons.prems(1) by auto
qed


text \<open>
  C3. Start from the initial statistics and make any sequence of \<^verbatim>\<open>update_stats\<close> calls,
  each with exactly one of win, draw, lose set. If the calls all return, the final state
  has \<open>total_turn = win_turn + lose_turn + draw_turn\<close> and \<open>total_turn\<close> is the number of
  calls. The only way a call does not return is the \<^verbatim>\<open>KeyError\<close> for a finger outside the
  five; with validated fingers every call returns.
\<close>

theorem C3_total_turn_is_sum:
  assumes "\<forall>call \<in> set calls. exactly_one call"
  shows "case update_stats_calls (Statistics_init available_fingers) calls of
           Inr s \<Rightarrow> total_turn s = win_turn s + lose_turn s + draw_turn s
                    \<and> total_turn s = int (length calls)
         | Inl e \<Rightarrow> e = KeyError \<and> (\<exists>call \<in> set calls. fst call \<notin> set available_fingers)"
proof (cases "update_stats_calls (Statistics_init available_fingers) calls")
  case (Inl e)
  then show ?thesis
    using calls_fail [OF assms Inl] by (simp add: Statistics_init_keys)
next
  case (Inr s)
  then show ?thesis
    using calls_counters [OF assms Inr] by (simp add: Statistics_init_fields)
qed

theorem C3_total_turn_is_sum_witness:
  "exactly_one (muzhi, True, False, False) \<and> exactly_one (xiaozhi, False, False, True)
   \<and> (\<exists>s. update_stats_calls (Statistics_init available_fingers)
               [(muzhi, True, False, False), (xiaozhi, False, False, True)] = Inr s
          \<and> total_turn s = 2 \<and> win_turn s + lose_turn s + draw_turn s = 2)"
proof -
  let ?calls = "[(muzhi, True, False, False), (xiaozhi, False, False, True)]"
  have one: "\<forall>call \<in> set ?calls. exactly_one call"
    by (simp add: exactly_one_def)
  have valid: "\<forall>call \<in> set ?calls. fst call \<in> set available_fingers"
    by (simp add: available_fingers_def)
  show ?thesis
    using C3_total_turn_is_sum [OF one] valid one
    by (cases "update_stats_calls (Statistics_init available_fingers) ?calls") auto
qed

text \<open>
  C7. In every state reached from the initial statistics by calls with exactly one flag
  set, the values of \<open>user_finger_after_winning\<close> (one per finger) sum to at most
  \<open>win_turn\<close>. The next call adds one to the entry of its finger exactly when the win
  flag it finds is set, that is when the previous round was a win, whatever the outcome
  passed now; otherwise it leaves the dictionary as it is; and only then it stores the
  new outcome in the flag.
\<close>

theorem C7_after_winning_bounded:
  assumes "\<forall>call \<in> set calls. exactly_one call"
      and "update_stats_calls (Statistics_init available_fingers) calls = Inr s"
  shows "map fst (user_finger_after_winning s) = available_fingers
       \<and> sum_list (map snd (user_finger_after_winning s)) \<le> win_turn s
       \<and> (\<forall>f w d l s'. update_stats s f w d l = Inr s' \<longrightarrow>
             (if last_user_win s
              then \<exists>v. map_of (user_finger_after_winning s) f = Some v
                     \<and> user_finger_after_winning s' =
                         AList.update f (v + 1) (user_finger_after_winning s)
              else user_finger_after_winning s' = user_finger_after_winning s)
           \<and> sum_list (map snd (user_finger_after_winning s')) =
               sum_list (map snd (user_finger_after_winning s)) + (if last_user_win s then 1 else 0)
           \<and> last_user_win s' = w)"
proof -
  have keys: "map fst (user_finger_after_winning s) = available_fingers"
    using calls_keys [OF assms(2)] by (simp add: Statistics_init_keys)
  have "sum_list (map snd (user_finger_after_winning s)) + (if last_user_win s then 1 else 0)
          \<le> win_turn s"
    using calls_after_winning [OF assms] by (simp add: Statistics_init_fields)
  then have bound: "sum_list (map snd (user_finger_after_winning s)) \<le> win_turn s"
    by (simp split: if_splits)
  have step: "(if last_user_win s
              then \<exists>v. map_of (user_finger_after_winning s) f = Some v
                     \<and> user_finger_after_winning s' =
                         AList.update f (v + 1) (user_finger_after_winning s)
              else user_finger_after_winning s' = user_finger_after_winning s)
           \<and> sum_list (map snd (user_finger_after_winning s')) =
               sum_list (map snd (user_finger_after_winning s)) + (if last_user_win s then 1 else 0)
           \<and> last_user_win s' = w"
    if "update_stats s f w d l = Inr s'" for f w d l s'
    using update_stats_Inr(5,8,9) [OF that] update_stats_sum [OF that] by simp
  show ?thesis
    using keys bound step by blast
qed

theorem C7_after_winning_bounded_witness:
  "exactly_one (muzhi, True, False, False) \<and> exactly_one (xiaozhi, True, False, False)
   \<and> (\<exists>s. update_stats_calls (Statistics_init available_fingers)
               [(muzhi, True, False, False), (xiaozhi, True, False, False)] = Inr s
          \<and> user_finger_after_winning s =
              [(muzhi, 0), (shizhi, 0), (zhongzhi, 0), (wumingzhi, 0), (xiaozhi, 1)]
          \<and> win_turn s = 2
          \<and> sum_list (map snd (user_finger_after_winning s)) \<le> win_turn s)"
proof -
  let ?calls = "[(muzhi, True, False, False), (xiaozhi, True, False, False)]"
  define s where "s = \<lparr> total_turn = 2, win_turn = 2, lose_turn = 0, draw_turn = 0,
       user_finger_after_winning = [(muzhi, 0), (shizhi, 0), (zhongzhi, 0), (wumingzhi, 0), (xiaozhi, 1)],
       last_user_finger = Some xiaozhi,
       last_user_win = True \<rparr>"
  have one: "\<forall>call \<in> set ?calls. exactly_one call"
    by (simp add: exactly_one_def)
  have run: "update_stats_calls (Statistics_init available_fingers) ?calls = Inr s"
    by (simp add: s_def update_stats_def Statistics_init_def available_fingers_def fingers_neq)
  have "sum_list (map snd (user_finger_after_winning s)) \<le> win_turn s"
    using C7_after_winning_bounded [OF one run] by blast
  then show ?thesis
    using one run by (simp add: s_def)
qed

subsection \<open>The opponent predictor\<close>

lemma set_sorted_reverse: "set (sorted_reverse key xs) = set xs"
  by (simp add: sorted_reverse_def)

lemma length_sorted_reverse: "length (sorted_reverse key xs) = length xs"
  by (simp add: sorted_reverse_def)

lemma distinct_sorted_reverse: "distinct (sorted_reverse key xs) = distinct xs"
  by (simp add: sorted_reverse_def)

lemma sorted_reverse_descending:
  "sorted_wrt (\<lambda>a b. key b \<le> key a) (sorted_reverse key xs)"
proof -
  have "sorted (map key (sort_key key (rev xs)))"
    by (rule sorted_sort_key)
  then have "sorted_wrt (\<lambda>a b. key a \<le> key b) (sort_key key (rev xs))"
    by (simp add: sorted_map)
  then show ?thesis
    by (simp add: sorted_reverse_def sorted_wrt_rev)
qed

lemma sorted_reverse_stable:
  "filter (\<lambda>y. key y = k) (sorted_reverse key xs) = filter (\<lambda>y. key y = k) xs"
proof -
  have "filter (\<lambda>y. key y = k) (sort_key key (rev xs)) = filter (\<lambda>y. key y = k) (rev xs)"
    by (rule sort_key_stable)
  then show ?thesis
    by (simp add: sorted_reverse_def rev_filter [symmetric])
qed

lemma take_dominates_drop:
  assumes "sorted_wrt (\<lambda>a b. key b \<le> key a) xs" "p \<in> set (take n xs)" "g \<in> set (drop n xs)"
  shows "key g \<le> key p"
proof -
  have "sorted_wrt (\<lambda>a b. key b \<le> key a) (take n xs @ drop n xs)"
    using assms(1) by simp
  then show ?thesis
    using assms(2,3) unfolding sorted_wrt_append by blast
qed

lemma random_choice_Inr: "i < length seq \<Longrightarrow> random_choice seq i = Inr (seq ! i)"
  by (simp add: random_choice_def)

lemma remaining_None: "last_user_finger s = None \<Longrightarrow> remaining_fingers s = available_fingers"
  by (simp add: remaining_fingers_def)

lemma remaining_Some:
  assumes "last_user_finger s = Some f" "f \<in> set available_fingers"
  shows "length (remaining_fingers s) = 4" "f \<notin> set (remaining_fingers s)"
  using assms(2,1)
  by (elim available_fingers_cases; simp add: remaining_fingers_def available_fingers_def fingers_neq)+

lemma earlier_in_filterD: "earlier_in (filter P xs) a b \<Longrightarrow> earlier_in xs a b"
  unfolding earlier_in_def
  by (induction xs) (auto split: if_splits dest: in_set_dropD set_dropWhileD)

lemma earlier_in_filterI: "earlier_in xs a b \<Longrightarrow> P a \<Longrightarrow> P b \<Longrightarrow> earlier_in (filter P xs) a b"
  unfolding earlier_in_def
  by (induction xs) (auto split: if_splits)

lemma earlier_in_take_drop:
  assumes "p \<in> set (take n xs)" "g \<in> set (drop n xs)"
  shows "earlier_in xs p g"
proof -
  have "dropWhile (\<lambda>x. x \<noteq> p) (take n xs @ drop n xs)
        = dropWhile (\<lambda>x. x \<noteq> p) (take n xs) @ drop n xs"
    using assms(1) by (intro dropWhile_append1) auto
  moreover have "dropWhile (\<lambda>x. x \<noteq> p) (take n xs) \<noteq> []"
    using assms(1) by (auto simp: dropWhile_eq_Nil_conv)
  ultimately have "g \<in> set (drop 1 (dropWhile (\<lambda>x. x \<noteq> p) (take n xs @ drop n xs)))"
    using assms(2) by (cases "dropWhile (\<lambda>x. x \<noteq> p) (take n xs)") auto
  then show ?thesis by (simp add: earlier_in_def)
qed

lemma predicted_fingers_props:
  assumes keys: "map fst (user_finger_after_winning s) = available_fingers"
  shows "length (predicted_fingers s) = 2"
    and "distinct (predicted_fingers s)"
    and "set (predicted_fingers s) \<subseteq> set available_fingers"
proof -
  let ?L = "sorted_reverse (map_of (user_finger_after_winning s)) available_fingers"
  have pf: "predicted_fingers s = take 2 ?L"
    by (simp add: predicted_fingers_def keys)
  show "length (predicted_fingers s) = 2"
    by (simp add: pf length_sorted_reverse length_available_fingers)
  show "distinct (predicted_fingers s)"
    by (simp add: pf distinct_sorted_reverse distinct_available_fingers)
  show "set (predicted_fingers s) \<subseteq> set available_fingers"
    using set_take_subset [of 2 ?L] by (simp add: pf set_sorted_reverse)
qed

lemma predicted_fingers_top:
  assumes keys: "map fst (user_finger_after_winning s) = available_fingers"
      and p: "p \<in> set (predicted_fingers s)"
      and g: "g \<in> set available_fingers - set (predicted_fingers s)"
  shows "\<exists>cp cg. map_of (user_finger_after_winning s) p = Some cp
            \<and> map_of (user_finger_after_winning s) g = Some cg
            \<and> cg \<le> cp \<and> (cg = cp \<longrightarrow> earlier_in available_fingers p g)"
proof -
  let ?key = "map_of (user_finger_after_winning s)"
  let ?L = "sorted_reverse ?key available_fingers"
  have pf: "predicted_fingers s = take 2 ?L"
    by (simp add: predicted_fingers_def keys)
  have p_take: "p \<in> set (take 2 ?L)" using p by (simp add: pf)
  have "set ?L = set (take 2 ?L) \<union> set (drop 2 ?L)"
    by (metis append_take_drop_id set_append)
  then have g_drop: "g \<in> set (drop 2 ?L)"
    using g by (auto simp: pf set_sorted_reverse)
  have p_av: "p \<in> set available_fingers"
    using in_set_takeD [OF p_take] by (simp add: set_sorted_reverse)
  have g_av: "g \<in> set available_fingers" using g by simp
  have dom: "f \<in> set available_fingers \<Longrightarrow> \<exists>c. ?key f = Some c" for f
    using keys by (metis weak_map_of_SomeI map_of_eq_None_iff not_None_eq set_map)
  from dom [OF p_av] obtain cp where cp: "?key p = Some cp" by blast
  from dom [OF g_av] obtain cg where cg: "?key g = Some cg" by blast
  have "?key g \<le> ?key p"
    by (rule take_dominates_drop [OF sorted_reverse_descending p_take g_drop])
  then have le: "cg \<le> cp" by (simp add: cp cg)
  have tie: "earlier_in available_fingers p g" if "cg = cp"
  proof -
    let ?same = "\<lambda>y. ?key y = Some cp"
    have "earlier_in ?L p g"
      by (rule earlier_in_take_drop [OF p_take g_drop])
    then have "earlier_in (filter ?same ?L) p g"
      by (rule earlier_in_filterI) (simp_all add: cp cg that)
    then have "earlier_in (filter ?same available_fingers) p g"
      by (simp add: sorted_reverse_stable)
    then show ?thesis by (rule earlier_in_filterD)
  qed
  show ?thesis using cp cg le tie by blast
qed

lemma get_winning_finger_total:
  assumes "f \<in> set available_fingers"
  shows "\<exists>w. get_winning_finger f = Inr w \<and> (w, f) \<in> set win_lose_pairs"
  using assms
  by (elim available_fingers_cases)
     (simp_all add: get_winning_finger_simps win_lose_pairs_def)

text \<open>
  C5. When the previous round was not a user win (the first round included) and the
  library's \<^verbatim>\<open>random.random()\<close> returned \<open>r < 0.75\<close>, the candidates are the fingers
  different from the user's last finger, each once: all five on the first round, four
  after a round played with one of the five. \<^verbatim>\<open>random.choice\<close> reads the candidate at
  the index \<open>i\<close> the library drew, so each candidate is predicted by exactly one of the
  equally likely indices, and the computer plays the finger that beats the predicted
  one. For \<open>r \<ge> 0.75\<close> the computer plays the finger at index \<open>i\<close> of all five.
\<close>

theorem C5_non_win_branch:
  assumes "\<not> last_user_win s"
  shows "set (remaining_fingers s) = {f \<in> set available_fingers. Some f \<noteq> last_user_finger s}
       \<and> distinct (remaining_fingers s)
       \<and> (last_user_finger s = None \<longrightarrow> remaining_fingers s = available_fingers)
       \<and> (\<forall>f \<in> set available_fingers. last_user_finger s = Some f \<longrightarrow>
             length (remaining_fingers s) = 4)
       \<and> (\<forall>g \<in> set (remaining_fingers s).
             \<exists>!i. i < length (remaining_fingers s) \<and> remaining_fingers s ! i = g)
       \<and> (\<forall>i < length (remaining_fingers s). r < 0.75 \<longrightarrow>
             (\<exists>w. get_computer_choice s (r, i) = Inr w
                \<and> get_winning_finger (remaining_fingers s ! i) = Inr w
                \<and> (w, remaining_fingers s ! i) \<in> set win_lose_pairs))
       \<and> (\<forall>i < length available_fingers. \<not> r < 0.75 \<longrightarrow>
             get_computer_choice s (r, i) = Inr (available_fingers ! i))"
proof -
  have set_rem: "set (remaining_fingers s) = {f \<in> set available_fingers. Some f \<noteq> last_user_finger s}"
    by (auto simp: remaining_fingers_def)
  have dist: "distinct (remaining_fingers s)"
    by (simp add: remaining_fingers_def distinct_available_fingers)
  have first: "last_user_finger s = None \<longrightarrow> remaining_fingers s = available_fingers"
    by (simp add: remaining_fingers_def)
  have four: "\<forall>f \<in> set available_fingers. last_user_finger s = Some f \<longrightarrow>
             length (remaining_fingers s) = 4"
    using remaining_Some(1) by blast
  have predict: "\<exists>w. get_computer_choice s (r, i) = Inr w
                \<and> get_winning_finger (remaining_fingers s ! i) = Inr w
                \<and> (w, remaining_fingers s ! i) \<in> set win_lose_pairs"
    if "i < length (remaining_fingers s)" "r < 0.75" for i
  proof -
    have "remaining_fingers s ! i \<in> set available_fingers"
      using nth_mem [OF that(1)] set_rem by blast
    from get_winning_finger_total [OF this] obtain w where
      w: "get_winning_finger (remaining_fingers s ! i) = Inr w"
         "(w, remaining_fingers s ! i) \<in> set win_lose_pairs" by blast
    have "get_computer_choice s (r, i) = Inr w"
      using assms that w(1) by (simp add: get_computer_choice_def random_choice_def)
    then show ?thesis using w by blast
  qed
  have uniform: "get_computer_choice s (r, i) = Inr (available_fingers ! i)"
    if "i < length available_fingers" "\<not> r < 0.75" for i
    using assms that by (simp add: get_computer_choice_def random_choice_def)
  have once: "\<forall>g \<in> set (remaining_fingers s).
             \<exists>!i. i < length (remaining_fingers s) \<and> remaining_fingers s ! i = g"
    using distinct_Ex1 [OF dist] by blast
  have predict': "\<forall>i < length (remaining_fingers s). r < 0.75 \<longrightarrow>
             (\<exists>w. get_computer_choice s (r, i) = Inr w
                \<and> get_winning_finger (remaining_fingers s ! i) = Inr w
                \<and> (w, remaining_fingers s ! i) \<in> set win_lose_pairs)"
    using predict by blast
  have uniform': "\<forall>i < length available_fingers. \<not> r < 0.75 \<longrightarrow>
             get_computer_choice s (r, i) = Inr (available_fingers ! i)"
    using uniform by blast
  show ?thesis
    using set_rem dist first four once predict' uniform' by (intro conjI)
qed

theorem C5_non_win_branch_witness:
  "\<not> last_user_win (Statistics_init available_fingers)
   \<and> last_user_finger (Statistics_init available_fingers) = None
   \<and> remaining_fingers (Statistics_init available_fingers) = available_fingers
   \<and> get_computer_choice (Statistics_init available_fingers) (0.5, 3) = Inr zhongzhi
   \<and> get_computer_choice (Statistics_init available_fingers) (0.75, 3) = Inr wumingzhi"
proof -
  let ?s = "Statistics_init available_fingers"
  have nowin: "\<not> last_user_win ?s"
    by (simp add: Statistics_init_def)
  have first: "last_user_finger ?s = None"
    by (simp add: Statistics_init_def)
  have rem: "remaining_fingers ?s = available_fingers"
    using C5_non_win_branch [OF nowin, of "0.5"] first by blast
  have predict: "\<forall>i < length (remaining_fingers ?s). (0.5::real) < 0.75 \<longrightarrow>
      (\<exists>w. get_computer_choice ?s (0.5, i) = Inr w
         \<and> get_winning_finger (remaining_fingers ?s ! i) = Inr w
         \<and> (w, remaining_fingers ?s ! i) \<in> set win_lose_pairs)"
    using C5_non_win_branch [OF nowin, of "0.5"] by blast
  have uniform: "\<forall>i < length available_fingers. \<not> (0.75::real) < 0.75 \<longrightarrow>
      get_computer_choice ?s (0.75, i) = Inr (available_fingers ! i)"
    using C5_non_win_branch [OF nowin, of "0.75"] by blast
  have nth3: "available_fingers ! 3 = wumingzhi" "3 < length available_fingers"
    by (simp_all add: available_fingers_def)
  have "get_computer_choice ?s (0.5, 3) = Inr zhongzhi"
    using predict [rule_format, of 3] nth3
    by (auto simp: rem get_winning_finger_simps)
  moreover have "get_computer_choice ?s (0.75, 3) = Inr wumingzhi"
    using uniform [rule_format, of 3] nth3 by simp
  ultimately show ?thesis
    using nowin first rem by simp
qed

text \<open>
  C6. When the previous round was a user win and the library's \<^verbatim>\<open>random.random()\<close>
  returned \<open>r < 0.8\<close>, the candidates are two different fingers whose after-winning
  counts are at least those of the three other fingers; among fingers of equal count
  the one earlier in the list of fingers is preferred. \<^verbatim>\<open>random.choice\<close> reads the
  candidate at the index \<open>i\<close> the library drew, and the computer plays the finger that
  beats it in the fixed relation. For \<open>r \<ge> 0.8\<close> the computer plays the finger at index
  \<open>i\<close> of all five. The dictionary has the five fingers as its keys in every state the
  game reaches (see \<open>calls_keys\<close>).
\<close>

theorem C6_win_branch:
  assumes "last_user_win s"
      and "map fst (user_finger_after_winning s) = available_fingers"
  shows "length (predicted_fingers s) = 2 \<and> distinct (predicted_fingers s)
       \<and> set (predicted_fingers s) \<subseteq> set available_fingers
       \<and> (\<forall>p \<in> set (predicted_fingers s). \<forall>g \<in> set available_fingers - set (predicted_fingers s).
             \<exists>cp cg. map_of (user_finger_after_winning s) p = Some cp
                   \<and> map_of (user_finger_after_winning s) g = Some cg
                   \<and> cg \<le> cp \<and> (cg = cp \<longrightarrow> earlier_in available_fingers p g))
       \<and> (\<forall>g \<in> set (predicted_fingers s).
             \<exists>!i. i < length (predicted_fingers s) \<and> predicted_fingers s ! i = g)
       \<and> (\<forall>i < length (predicted_fingers s). r < 0.8 \<longrightarrow>
             (\<exists>w. get_computer_choice s (r, i) = Inr w
                \<and> get_winning_finger (predicted_fingers s ! i) = Inr w
                \<and> (w, predicted_fingers s ! i) \<in> set win_lose_pairs))
       \<and> (\<forall>i < length available_fingers. \<not> r < 0.8 \<longrightarrow>
             get_computer_choice s (r, i) = Inr (available_fingers ! i))"
proof -
  note props = predicted_fingers_props [OF assms(2)]
  have top: "\<forall>p \<in> set (predicted_fingers s). \<forall>g \<in> set available_fingers - set (predicted_fingers s).
             \<exists>cp cg. map_of (user_finger_after_winning s) p = Some cp
                   \<and> map_of (user_finger_after_winning s) g = Some cg
                   \<and> cg \<le> cp \<and> (cg = cp \<longrightarrow> earlier_in available_fingers p g)"
    using predicted_fingers_top [OF assms(2)] by blast
  have predict: "\<exists>w. get_computer_choice s (r, i) = Inr w
                \<and> get_winning_finger (predicted_fingers s ! i) = Inr w
                \<and> (w, predicted_fingers s ! i) \<in> set win_lose_pairs"
    if "i < length (predicted_fingers s)" "r < 0.8" for i
  proof -
    have "predicted_fingers s ! i \<in> set available_fingers"
      using nth_mem [OF that(1)] props(3) by blast
    from get_winning_finger_total [OF this] obtain w where
      w: "get_winning_finger (predicted_fingers s ! i) = Inr w"
         "(w, predicted_fingers s ! i) \<in> set win_lose_pairs" by blast
    have "get_computer_choice s (r, i) = Inr w"
      using assms(1) that w(1) by (simp add: get_computer_choice_def random_choice_def)
    then show ?thesis using w by blast
  qed
  have uniform: "get_computer_choice s (r, i) = Inr (available_fingers ! i)"
    if "i < length available_fingers" "\<not> r < 0.8" for i
    using assms(1) that by (simp add: get_computer_choice_def random_choice_def)
  have once: "\<forall>g \<in> set (predicted_fingers s).
             \<exists>!i. i < length (predicted_fingers s) \<and> predicted_fingers s ! i = g"
    using distinct_Ex1 [OF props(2)] by blast
  have predict': "\<forall>i < length (predicted_fingers s). r < 0.8 \<longrightarrow>
             (\<exists>w. get_computer_choice s (r, i) = Inr w
                \<and> get_winning_finger (predicted_fingers s ! i) = Inr w
                \<and> (w, predicted_fingers s ! i) \<in> set win_lose_pairs)"
    using predict by blast
  have uniform': "\<forall>i < length available_fingers. \<not> r < 0.8 \<longrightarrow>
             get_computer_choice s (r, i) = Inr (available_fingers ! i)"
    using uniform by blast
  show ?thesis
    using props top once predict' uniform' by (intro conjI)
qed

theorem C6_win_branch_witness:
  "\<exists>s. update_stats_calls (Statistics_init available_fingers)
          [(muzhi, True, False, False), (xiaozhi, True, False, False)] = Inr s
      \<and> last_user_win s
      \<and> map fst (user_finger_after_winning s) = available_fingers
      \<and> predicted_fingers s = [xiaozhi, muzhi]
      \<and> get_computer_choice s (0.5, 0) = Inr wumingzhi
      \<and> get_computer_choice s (0.5, 1) = Inr xiaozhi
      \<and> get_computer_choice s (0.9, 2) = Inr zhongzhi"
proof -
  define s where "s = \<lparr> total_turn = 2, win_turn = 2, lose_turn = 0, draw_turn = 0,
       user_finger_after_winning = [(muzhi, 0), (shizhi, 0), (zhongzhi, 0), (wumingzhi, 0), (xiaozhi, 1)],
       last_user_finger = Some xiaozhi,
       last_user_win = True \<rparr>"
  have run: "update_stats_calls (Statistics_init available_fingers)
          [(muzhi, True, False, False), (xiaozhi, True, False, False)] = Inr s"
    by (simp add: s_def update_stats_def Statistics_init_def available_fingers_def fingers_neq)
  have win: "last_user_win s" by (simp add: s_def)
  have keys: "map fst (user_finger_after_winning s) = available_fingers"
    by (simp add: s_def available_fingers_def)
  have top: "predicted_fingers s = [xiaozhi, muzhi]"
    by (simp add: predicted_fingers_def s_def sorted_reverse_def fingers_neq)
  have predict: "\<forall>i < length (predicted_fingers s). (0.5::real) < 0.8 \<longrightarrow>
      (\<exists>w. get_computer_choice s (0.5, i) = Inr w
         \<and> get_winning_finger (predicted_fingers s ! i) = Inr w
         \<and> (w, predicted_fingers s ! i) \<in> set win_lose_pairs)"
    using C6_win_branch [OF win keys, of "0.5"] by blast
  have uniform: "\<forall>i < length available_fingers. \<not> (0.9::real) < 0.8 \<longrightarrow>
      get_computer_choice s (0.9, i) = Inr (available_fingers ! i)"
    using C6_win_branch [OF win keys, of "0.9"] by blast
  have "get_computer_choice s (0.5, 0) = Inr wumingzhi"
    using predict [rule_format, of 0]
    by (auto simp: top get_winning_finger_simps)
  moreover have "get_computer_choice s (0.5, 1) = Inr xiaozhi"
    using predict [rule_format, of 1]
    by (auto simp: top get_winning_finger_simps)
  moreover have "get_computer_choice s (0.9, 2) = Inr zhongzhi"
    using uniform [rule_format, of 2] by (simp add: available_fingers_def)
  ultimately show ?thesis
    using run win keys top by blast
qed

subsection \<open>The game loop\<close>

lemma get_input_valid:
  "get_input stdin = Inr (user_input, rest) \<Longrightarrow>
   user_input = exit_str \<or> user_input \<in> set available_fingers"
  by (induction stdin) (auto split: if_splits)

text \<open>
  C8. Whatever the statistics and the library's future draws, when the validated
  input is the exit token the loop returns at once: the statistics (counters,
  dictionary, last finger and win flag) are the ones it was entered with, and no draw has
  been consumed, so neither the predictor nor the judge has run.
\<close>

theorem C8_exit_leaves_statistics:
  assumes "get_input stdin = Inr (exit_str, rest)"
  shows "start stats stdin rng = Inr (stats, rest, rng)"
  using assms by (subst start.simps) simp

theorem C8_exit_leaves_statistics_witness:
  "get_input [''hello'', ''exit'', muzhi] = Inr (exit_str, [muzhi])
   \<and> start (Statistics_init available_fingers) [''hello'', ''exit'', muzhi] (sconst (0.5, 0))
       = Inr (Statistics_init available_fingers, [muzhi], sconst (0.5, 0))"
proof -
  have inp: "get_input [''hello'', ''exit'', muzhi] = Inr (exit_str, [muzhi])"
    by (simp add: exit_str_def available_fingers_def finger_defs)
  show ?thesis
    using C8_exit_leaves_statistics [OF inp] inp by simp
qed

section \<open>Properties of the word counts\<close>

text \<open>The tokens of \<open>str_split\<close> are not empty and hold no whitespace.\<close>

lemma split_loop_tokens:
  "\<forall>c \<in> set cur. \<not> isspace c \<Longrightarrow> w \<in> set (split_loop isspace cur text) \<Longrightarrow>
   w \<noteq> [] \<and> (\<forall>c \<in> set w. \<not> isspace c)"
proof (induction "text" arbitrary: cur)
  case Nil
  then show ?case by (simp split: if_splits)
next
  case (Cons ch rest)
  show ?case
  proof (cases "isspace ch")
    case True
    show ?thesis
    proof (cases "cur = []")
      case True
      with \<open>isspace ch\<close> Cons.prems(2) have "w \<in> set (split_loop isspace [] rest)" by simp
      then show ?thesis using Cons.IH [of "[]"] by simp
    next
      case False
      with \<open>isspace ch\<close> Cons.prems(2) have "w = cur \<or> w \<in> set (split_loop isspace [] rest)"
        by simp
      then show ?thesis
        using Cons.IH [of "[]"] Cons.prems(1) False by auto
    qed
  next
    case False
    with Cons.prems(2) have "w \<in> set (split_loop isspace (cur @ [ch]) rest)" by simp
    moreover have "\<forall>c \<in> set (cur @ [ch]). \<not> isspace c"
      using Cons.prems(1) False by simp
    ultimately show ?thesis using Cons.IH [of "cur @ [ch]"] by blast
  qed
qed

lemma str_split_tokens:
  "w \<in> set (str_split isspace text) \<Longrightarrow> w \<noteq> [] \<and> (\<forall>c \<in> set w. \<not> isspace c)"
  unfolding str_split_def using split_loop_tokens [of "[]" isspace w "text"] by simp

text \<open>
  \<open>str_split\<close> returns the whitespace-separated tokens of the text, and they are the
  only list of such tokens.
\<close>

lemma separated_tokens_space:
  assumes "isspace ch" "separated_tokens isspace rest ws"
  shows "separated_tokens isspace (ch # rest) ws"
  using assms(2)
proof (cases rule: separated_tokens.cases)
  case no_token
  then show ?thesis
    using assms(1) separated_tokens.no_token [of "ch # rest" isspace] by simp
next
  case (token sp w rest' ws')
  have "separated_tokens isspace ((ch # sp) @ w @ rest') (w # ws')"
    using token assms(1) by (intro separated_tokens.token) simp_all
  then show ?thesis using token by simp
qed

lemma split_loop_separated:
  "\<forall>c \<in> set cur. \<not> isspace c \<Longrightarrow>
   separated_tokens isspace (cur @ text) (split_loop isspace cur text)"
proof (induction "text" arbitrary: cur)
  case Nil
  show ?case
  proof (cases "cur = []")
    case True
    then show ?thesis using separated_tokens.no_token [of "[]" isspace] by simp
  next
    case False
    have "separated_tokens isspace ([] @ cur @ []) (cur # [])"
      using False Nil separated_tokens.no_token [of "[]" isspace]
      by (intro separated_tokens.token) simp_all
    then show ?thesis using False by simp
  qed
next
  case (Cons ch rest)
  show ?case
  proof (cases "isspace ch")
    case True
    have tail: "separated_tokens isspace (ch # rest) (split_loop isspace [] rest)"
      using Cons.IH [of "[]"] True by (simp add: separated_tokens_space)
    show ?thesis
    proof (cases "cur = []")
      case True
      then show ?thesis using tail \<open>isspace ch\<close> by simp
    next
      case False
      have "separated_tokens isspace ([] @ cur @ (ch # rest)) (cur # split_loop isspace [] rest)"
        using False Cons.prems tail \<open>isspace ch\<close>
        by (intro separated_tokens.token) simp_all
      then show ?thesis using False \<open>isspace ch\<close> by simp
    qed
  next
    case False
    have "\<forall>c \<in> set (cur @ [ch]). \<not> isspace c"
      using Cons.prems False by simp
    from Cons.IH [OF this] show ?thesis using False by simp
  qed
qed

lemma split_loop_skip_space:
  "\<forall>c \<in> set sp. isspace c \<Longrightarrow> split_loop isspace [] (sp @ t) = split_loop isspace [] t"
  by (induction sp) simp_all

lemma split_loop_read_word:
  "\<forall>c \<in> set w. \<not> isspace c \<Longrightarrow> split_loop isspace cur (w @ t) = split_loop isspace (cur @ w) t"
  by (induction w arbitrary: cur) simp_all

lemma separated_tokens_unique:
  "separated_tokens isspace text ws \<Longrightarrow> str_split isspace text = ws"
proof (induction rule: separated_tokens.induct)
  case (no_token sp)
  then show ?case
    using split_loop_skip_space [of sp isspace "[]"] by (simp add: str_split_def)
next
  case (token sp w rest ws)
  have "split_loop isspace [] (sp @ w @ rest) = split_loop isspace w rest"
    using token.hyps(1,3) by (simp add: split_loop_skip_space split_loop_read_word)
  also have "\<dots> = w # ws"
  proof (cases rest)
    case Nil
    then show ?thesis using token.hyps(2) token.IH by (simp add: str_split_def)
  next
    case (Cons r rs)
    then have "isspace r" using token.hyps(4) by simp
    then show ?thesis using Cons token.hyps(2) token.IH by (simp add: str_split_def)
  qed
  finally show ?case by (simp add: str_split_def)
qed

lemma separated_tokens_concat:
  "separated_tokens isspace text ws \<Longrightarrow> concat ws = filter (\<lambda>c. \<not> isspace c) text"
proof (induction rule: separated_tokens.induct)
  case (no_token sp)
  then show ?case by (simp add: filter_empty_conv)
next
  case (token sp w rest ws)
  have "filter (\<lambda>c. \<not> isspace c) sp = []" using token.hyps(1) by (simp add: filter_empty_conv)
  moreover have "filter (\<lambda>c. \<not> isspace c) w = w" using token.hyps(3) by (simp add: filter_id_conv)
  ultimately show ?case using token.IH by simp
qed

lemma fold_assign:
  "fold (\<lambda>word d. d(word \<mapsto> g word)) ws m = (\<lambda>k. if k \<in> set ws then Some (g k) else m k)"
proof (induction ws arbitrary: m)
  case Nil
  show ?case by simp
next
  case (Cons w ws)
  have "fold (\<lambda>word d. d(word \<mapsto> g word)) (w # ws) m
        = fold (\<lambda>word d. d(word \<mapsto> g word)) ws (m(w \<mapsto> g w))"
    by (simp only: fold_simps o_apply)
  also have "\<dots> = (\<lambda>k. if k \<in> set ws then Some (g k) else (m(w \<mapsto> g w)) k)"
    by (rule Cons.IH)
  also have "\<dots> = (\<lambda>k. if k \<in> set (w # ws) then Some (g k) else m k)"
    by (rule ext) simp
  finally show ?case .
qed

lemma count_word_occurrences_eq:
  "count_word_occurrences isspace text =
     (\<lambda>k. if k \<in> set (str_split isspace text)
          then Some (int (count_list (str_split isspace text) k)) else None)"
  unfolding count_word_occurrences_def Let_def
  by (subst fold_assign) simp

text \<open>
  C10. For every text (and every whitespace table), the list \<^verbatim>\<open>text.split()\<close> is the list
  of the whitespace-separated tokens of the text, in order, and no other list is; its
  concatenation is the text without its whitespace. The keys of the dictionary returned
  by \<^verbatim>\<open>count_word_occurrences\<close> are exactly these tokens, the value of a token is the
  number of its occurrences among them, which is at least 1, and the values sum to the
  number of tokens.
\<close>

theorem C10_count_word_occurrences:
  "let words = str_split isspace text;
       d = count_word_occurrences isspace text
   in separated_tokens isspace text words
    \<and> (\<forall>ws. separated_tokens isspace text ws \<longrightarrow> ws = words)
    \<and> concat words = filter (\<lambda>c. \<not> isspace c) text
    \<and> dom d = set words
    \<and> (\<forall>w \<in> set words. d w = Some (int (count_list words w)) \<and> 1 \<le> count_list words w)
    \<and> (\<Sum>w \<in> dom d. dict_get d w 0) = int (length words)"
proof -
  define words where "words = str_split isspace text"
  define d where "d = count_word_occurrences isspace text"
  have tokens: "separated_tokens isspace text words"
    unfolding words_def str_split_def
    using split_loop_separated [of "[]" isspace "text"] by simp
  have only: "\<forall>ws. separated_tokens isspace text ws \<longrightarrow> ws = words"
    unfolding words_def using separated_tokens_unique by blast
  have cat: "concat words = filter (\<lambda>c. \<not> isspace c) text"
    using tokens by (rule separated_tokens_concat)
  have d: "d = (\<lambda>k. if k \<in> set words then Some (int (count_list words k)) else None)"
    unfolding d_def words_def by (rule count_word_occurrences_eq)
  have dom: "dom d = set words"
    by (auto simp: d dom_def)
  have pos: "1 \<le> count_list words w" if "w \<in> set words" for w
    using that count_list_0_iff [of words w] by (cases "count_list words w") simp_all
  have vals: "\<forall>w \<in> set words. d w = Some (int (count_list words w)) \<and> 1 \<le> count_list words w"
    using pos by (simp add: d)
  have "(\<Sum>w \<in> set words. dict_get d w 0) = (\<Sum>w \<in> set words. int (count_list words w))"
    by (rule sum.cong) (simp_all add: d dict_get_def)
  also have "\<dots> = int (\<Sum>w \<in> set words. count_list words w)"
    by simp
  also have "\<dots> = int (length words)"
    by (simp add: sum_count_set)
  finally have total: "(\<Sum>w \<in> dom d. dict_get d w 0) = int (length words)"
    by (simp add: dom)
  have "separated_tokens isspace text words
    \<and> (\<forall>ws. separated_tokens isspace text ws \<longrightarrow> ws = words)
    \<and> concat words = filter (\<lambda>c. \<not> isspace c) text
    \<and> dom d = set words
    \<and> (\<forall>w \<in> set words. d w = Some (int (count_list words w)) \<and> 1 \<le> count_list words w)
    \<and> (\<Sum>w \<in> dom d. dict_get d w 0) = int (length words)"
    using tokens only cat dom vals total by (intro conjI)
  then show ?thesis
    unfolding Let_def words_def d_def .
qed

lemma str_split_example:
  "str_split (\<lambda>c. c = CHR '' '') '' hello  world hello'' = [''hello'', ''world'', ''hello'']"
  by (simp add: str_split_def)

theorem C10_count_word_occurrences_witness:
  "str_split (\<lambda>c. c = CHR '' '') '' hello  world hello'' = [''hello'', ''world'', ''hello'']
   \<and> separated_tokens (\<lambda>c. c = CHR '' '') '' hello  world hello'' [''hello'', ''world'', ''hello'']
   \<and> count_word_occurrences (\<lambda>c. c = CHR '' '') '' hello  world hello'' ''hello'' = Some 2
   \<and> count_word_occurrences (\<lambda>c. c = CHR '' '') '' hello  world hello'' ''world'' = Some 1
   \<and> dom (count_word_occurrences (\<lambda>c. c = CHR '' '') '' hello  world hello'') = {''hello'', ''world''}
   \<and> \<not> separated_tokens (\<lambda>c. c = CHR '' '') '' hello  world hello'' [''hello'', ''hello'']"
proof -
  let ?sp = "\<lambda>c. c = CHR '' ''"
  let ?t = "'' hello  world hello''"
  let ?d = "count_word_occurrences ?sp ?t"
  have all: "separated_tokens ?sp ?t (str_split ?sp ?t)
      \<and> dom ?d = set (str_split ?sp ?t)
      \<and> (\<forall>w \<in> set (str_split ?sp ?t).
            ?d w = Some (int (count_list (str_split ?sp ?t) w))
            \<and> 1 \<le> count_list (str_split ?sp ?t) w)"
    using C10_count_word_occurrences [of ?sp ?t]
    unfolding Let_def by blast
  have tok: "separated_tokens ?sp ?t [''hello'', ''world'', ''hello'']"
    using all by (simp only: str_split_example)
  have h: "?d ''hello'' = Some 2" using all by (simp add: str_split_example)
  have w: "?d ''world'' = Some 1" using all by (simp add: str_split_example)
  have only: "\<forall>ws. separated_tokens ?sp ?t ws \<longrightarrow> ws = str_split ?sp ?t"
    using C10_count_word_occurrences [of ?sp ?t]
    unfolding Let_def by blast
  have other: "\<not> separated_tokens ?sp ?t [''hello'', ''hello'']"
  proof
    assume "separated_tokens ?sp ?t [''hello'', ''hello'']"
    with only have "[''hello'', ''hello''] = str_split ?sp ?t" by blast
    then show False by (simp add: str_split_example)
  qed
  have "dom ?d = {''hello'', ''world''}" using all by (auto simp: str_split_example)
  then show ?thesis using tok h w other str_split_example by simp
qed

lemma merge_word_counts_apply:
  "merge_word_counts d1 d2 key =
     (if d1 key = None \<and> d2 key = None then None
      else Some (dict_get d1 key 0 + dict_get d2 key 0))"
  by (simp add: merge_word_counts_def domIff)

text \<open>
  C9. \<^verbatim>\<open>merge_word_counts(d1, d2)\<close> and \<^verbatim>\<open>merge_word_counts(d2, d1)\<close> are the same mapping:
  its keys are the keys of \<open>d1\<close> together with those of \<open>d2\<close>, and the value of a key is
  the sum of its counts in the two, a missing one counted as 0.
\<close>

theorem C9_merge_word_counts_commutative:
  "merge_word_counts d1 d2 = merge_word_counts d2 d1
   \<and> dom (merge_word_counts d1 d2) = dom d1 \<union> dom d2
   \<and> (\<forall>key \<in> dom d1 \<union> dom d2.
         merge_word_counts d1 d2 key = Some (dict_get d1 key 0 + dict_get d2 key 0))"
proof -
  have comm: "merge_word_counts d1 d2 = merge_word_counts d2 d1"
  proof (rule ext)
    fix key
    show "merge_word_counts d1 d2 key = merge_word_counts d2 d1 key"
      unfolding merge_word_counts_apply by (simp add: conj_commute)
  qed
  have dom: "dom (merge_word_counts d1 d2) = dom d1 \<union> dom d2"
  proof (rule set_eqI)
    fix key
    show "key \<in> dom (merge_word_counts d1 d2) \<longleftrightarrow> key \<in> dom d1 \<union> dom d2"
      by (simp add: domIff merge_word_counts_apply)
  qed
  have vals: "\<forall>key \<in> dom d1 \<union> dom d2.
         merge_word_counts d1 d2 key = Some (dict_get d1 key 0 + dict_get d2 key 0)"
    by (simp add: merge_word_counts_def)
  show ?thesis using comm dom vals by (intro conjI)
qed

theorem C9_merge_word_counts_commutative_witness:
  "merge_word_counts [''a'' \<mapsto> 2, ''b'' \<mapsto> 1] [''b'' \<mapsto> 3, ''c'' \<mapsto> 4] ''b'' = Some 4
   \<and> merge_word_counts [''b'' \<mapsto> 3, ''c'' \<mapsto> 4] [''a'' \<mapsto> 2, ''b'' \<mapsto> 1] ''b'' = Some 4"
proof -
  let ?d1 = "[''a'' \<mapsto> 2, ''b'' \<mapsto> 1] :: string \<rightharpoonup> int"
  let ?d2 = "[''b'' \<mapsto> 3, ''c'' \<mapsto> 4] :: string \<rightharpoonup> int"
  have comm: "merge_word_counts ?d1 ?d2 = merge_word_counts ?d2 ?d1"
    and vals: "\<forall>key \<in> dom ?d1 \<union> dom ?d2.
         merge_word_counts ?d1 ?d2 key = Some (dict_get ?d1 key 0 + dict_get ?d2 key 0)"
    using C9_merge_word_counts_commutative [of ?d1 ?d2] by blast+
  have "''b'' \<in> dom ?d1 \<union> dom ?d2" by simp
  with vals have "merge_word_counts ?d1 ?d2 ''b'' = Some (dict_get ?d1 ''b'' 0 + dict_get ?d2 ''b'' 0)"
    by blast
  then have b: "merge_word_counts ?d1 ?d2 ''b'' = Some 4"
    by (simp add: dict_get_def)
  then show ?thesis using comm by simp
qed

end
